theory Spec2Isabelle
  imports Main "HOL-Library.Word"
begin

unbundle bit_operations_syntax

section \<open>The 9P server of ninep/protocol: Dispatch, conn.serve, NetListener.Serve\<close>

text \<open>
  The development follows the Go file that declares \<^verbatim>\<open>Server\<close>, \<^verbatim>\<open>conn\<close>,
  \<^verbatim>\<open>NetListener.Serve\<close>, \<^verbatim>\<open>conn.serve\<close> and \<^verbatim>\<open>Dispatch\<close>.
  Go values are modelled as follows: a \<^verbatim>\<open>byte\<close> is an \<open>8 word\<close>, \<^verbatim>\<open>MType\<close> is a
  byte, \<^verbatim>\<open>Tag\<close> is a \<open>16 word\<close>, a \<^verbatim>\<open>bytes.Buffer\<close> is the list of its unread
  bytes, an \<^verbatim>\<open>error\<close> is a value of the datatype \<open>error\<close> and a nil error is
  \<open>None\<close>.
\<close>

subsection \<open>Basic types\<close>

type_synonym byte = "8 word"
type_synonym MType = "8 word"
type_synonym Tag = "16 word"

datatype error = EOF | Errorf string

subsection \<open>Message types and their names\<close>

text \<open>
  Modelled from the spec: the constant declarations of the message types are not part of
  the sources at hand; the values are those of the table "Message types (value \<rightarrow> name)".
\<close>

definition Tversion :: MType where "Tversion = 100"
definition Tauth :: MType where "Tauth = 102"
definition Tattach :: MType where "Tattach = 104"
definition Terror :: MType where "Terror = 106"
definition Rerror :: MType where "Rerror = 107"
definition Tflush :: MType where "Tflush = 108"
definition Twalk :: MType where "Twalk = 110"
definition Topen :: MType where "Topen = 112"
definition Tcreate :: MType where "Tcreate = 114"
definition Tread :: MType where "Tread = 116"
definition Twrite :: MType where "Twrite = 118"
definition Tclunk :: MType where "Tclunk = 120"
definition Tremove :: MType where "Tremove = 122"
definition Tstat :: MType where "Tstat = 124"
definition Twstat :: MType where "Twstat = 126"

lemmas mtype_defs =
  Tversion_def Tauth_def Tattach_def Terror_def Rerror_def Tflush_def Twalk_def Topen_def
  Tcreate_def Tread_def Twrite_def Tclunk_def Tremove_def Tstat_def Twstat_def

text \<open>
  Modelled from the spec: the table \<^verbatim>\<open>RPCNames\<close> is not part of the sources at hand. It
  is a Go map from \<^verbatim>\<open>MType\<close> to the name of the message; a key that is absent yields
  the empty string. The names are those of the spec's table of message types.
\<close>

definition RPCNames :: "MType \<Rightarrow> string" where
  "RPCNames t =
     (if t = 100 then ''Tversion'' else if t = 101 then ''Rversion''
      else if t = 102 then ''Tauth'' else if t = 103 then ''Rauth''
      else if t = 104 then ''Tattach'' else if t = 105 then ''Rattach''
      else if t = 106 then ''Terror'' else if t = 107 then ''Rerror''
      else if t = 108 then ''Tflush'' else if t = 109 then ''Rflush''
      else if t = 110 then ''Twalk'' else if t = 111 then ''Rwalk''
      else if t = 112 then ''Topen'' else if t = 113 then ''Ropen''
      else if t = 114 then ''Tcreate'' else if t = 115 then ''Rcreate''
      else if t = 116 then ''Tread'' else if t = 117 then ''Rread''
      else if t = 118 then ''Twrite'' else if t = 119 then ''Rwrite''
      else if t = 120 then ''Tclunk'' else if t = 121 then ''Rclunk''
      else if t = 122 then ''Tremove'' else if t = 123 then ''Rremove''
      else if t = 124 then ''Tstat'' else if t = 125 then ''Rstat''
      else if t = 126 then ''Twstat'' else if t = 127 then ''Rwstat''
      else [])"

subsection \<open>The Rerror packet\<close>

text \<open>
  \<^verbatim>\<open>Tag(d[0]) | Tag(d[1])<<8\<close> in \<^verbatim>\<open>Dispatch\<close>, and
  \<^verbatim>\<open>uint16(l[5]) | uint16(l[6])<<8\<close> in \<^verbatim>\<open>conn.serve\<close>.
\<close>

definition tag_of :: "byte \<Rightarrow> byte \<Rightarrow> Tag" where
  "tag_of d0 d1 = ucast d0 OR push_bit 8 (ucast d1)"

definition str_bytes :: "string \<Rightarrow> byte list" where
  "str_bytes s = map of_char s"

definition le16 :: "nat \<Rightarrow> byte list" where
  "le16 n = [of_nat n, of_nat (n div 256)]"

definition le32 :: "nat \<Rightarrow> byte list" where
  "le32 n = [of_nat n, of_nat (n div 256), of_nat (n div 65536), of_nat (n div 16777216)]"

text \<open>
  Modelled from the spec: \<^verbatim>\<open>MarshalRerrorPkt(b, tag, ename)\<close> is not part of the
  sources at hand. It replaces the contents of the buffer by an Rerror frame. By the wire
  codec of the spec a frame is \<open>size[4] type[1] tag[2] body\<close>, \<open>size\<close> counts all bytes
  of the frame, integers are little-endian, the type of Rerror is 107 and its body is one
  string, a 16-bit length followed by the bytes. The function returns the new contents of
  the buffer.
\<close>

definition MarshalRerrorPkt :: "Tag \<Rightarrow> string \<Rightarrow> byte list" where
  "MarshalRerrorPkt tag ename =
     le32 (4 + 1 + 2 + 2 + length ename) @ [Rerror] @ le16 (unat tag)
       @ le16 (length ename) @ str_bytes ename"

text \<open>
  Modelled from the spec: \<^verbatim>\<open>ServerError(b, msg)\<close> is not part of the sources at hand.
  It answers the request held in the buffer with an Rerror that carries the message; the
  tag of the request is in the first two bytes of the buffer. The spec does not say what
  becomes of a buffer too short to hold a tag: it is left as it is here, and
  \<^verbatim>\<open>conn.serve\<close> never hands one over.
\<close>

definition ServerError :: "byte list \<Rightarrow> string \<Rightarrow> byte list" where
  "ServerError b msg =
     (case b of d0 # d1 # _ \<Rightarrow> MarshalRerrorPkt (tag_of d0 d1) msg | _ \<Rightarrow> b)"

subsection \<open>Server and Dispatch\<close>

text \<open>
  \<^verbatim>\<open>type Server struct { NS NineServer; D Dispatcher; Versioned bool }\<close>. The backend
  \<^verbatim>\<open>NS\<close> is a value of an arbitrary type \<open>'ns\<close>. Both constructors of a connection
  (\<^verbatim>\<open>newConn\<close> and \<^verbatim>\<open>ServeFromRWC\<close>) set \<^verbatim>\<open>D: Dispatch\<close>, so the field \<^verbatim>\<open>D\<close> is not
  a field of the record and \<^verbatim>\<open>c.server.D(...)\<close> is the function \<open>Dispatch\<close> below.
\<close>

record 'ns Server =
  NS :: 'ns
  Versioned :: bool

text \<open>
  The twelve handlers \<^verbatim>\<open>s.SrvRversion(ctx, b)\<close> ... \<^verbatim>\<open>s.SrvRwrite(ctx, b)\<close> are
  methods with a pointer receiver, declared outside the sources at hand. Each one is taken as
  a parameter: a function of the server and the buffer that returns the server, the new
  contents of the buffer and the error.
\<close>

type_synonym 'ns handler = "'ns Server \<Rightarrow> byte list \<Rightarrow> 'ns Server \<times> byte list \<times> error option"

record 'ns handlers =
  SrvRversion :: "'ns handler"
  SrvRattach :: "'ns handler"
  SrvRflush :: "'ns handler"
  SrvRwalk :: "'ns handler"
  SrvRopen :: "'ns handler"
  SrvRcreate :: "'ns handler"
  SrvRclunk :: "'ns handler"
  SrvRstat :: "'ns handler"
  SrvRwstat :: "'ns handler"
  SrvRremove :: "'ns handler"
  SrvRread :: "'ns handler"
  SrvRwrite :: "'ns handler"

definition not_allowed :: "MType \<Rightarrow> string" where
  "not_allowed t = ''Dispatch: '' @ RPCNames t @ '' not allowed before Tversion''"

definition not_supported :: "MType \<Rightarrow> string" where
  "not_supported t = ''Dispatch: '' @ RPCNames t @ '' not supported''"

text \<open>
  \<^verbatim>\<open>func Dispatch(ctx, s *Server, b *bytes.Buffer, t MType) error\<close>. The result is
  \<open>None\<close> when the Go code panics (\<^verbatim>\<open>d[0]\<close> or \<^verbatim>\<open>d[1]\<close> out of range in the gate),
  and otherwise the server, the contents of the buffer and the returned error.
\<close>

definition Dispatch ::
  "'ns handlers \<Rightarrow> 'ns Server \<Rightarrow> byte list \<Rightarrow> MType \<Rightarrow> ('ns Server \<times> byte list \<times> error option) option"
where
  "Dispatch h s b t =
     (if t \<noteq> Tversion \<and> \<not> Versioned s then
        (case b of
           d0 # d1 # _ \<Rightarrow>
             Some (s, MarshalRerrorPkt (tag_of d0 d1) (not_allowed t), Some (Errorf (not_allowed t)))
         | _ \<Rightarrow> None)
      else
        let s = (if t = Tversion then s\<lparr>Versioned := True\<rparr> else s) in
        if t = Tversion then Some (SrvRversion h s b)
        else if t = Tattach then Some (SrvRattach h s b)
        else if t = Tflush then Some (SrvRflush h s b)
        else if t = Twalk then Some (SrvRwalk h s b)
        else if t = Topen then Some (SrvRopen h s b)
        else if t = Tcreate then Some (SrvRcreate h s b)
        else if t = Tclunk then Some (SrvRclunk h s b)
        else if t = Tstat then Some (SrvRstat h s b)
        else if t = Twstat then Some (SrvRwstat h s b)
        else if t = Tremove then Some (SrvRremove h s b)
        else if t = Tread then Some (SrvRread h s b)
        else if t = Twrite then Some (SrvRwrite h s b)
        else Some (s, ServerError b (not_supported t), None))"

subsection \<open>The byte stream of a connection\<close>

text \<open>
  The \<^verbatim>\<open>io.Reader\<close> of a connection is the list of what its successive reads will
  deliver: \<open>Chunk bs\<close> are bytes that arrive together, \<open>Fail e\<close> is a read that
  returns the error \<open>e\<close>, and the end of the list is the end of the stream
  (\<^verbatim>\<open>io.EOF\<close>). \<open>Read r n\<close> is \<^verbatim>\<open>Read(p)\<close> with \<^verbatim>\<open>len(p) = n\<close>: it returns
  the bytes read, the error, and the rest of the stream. A read never waits for more
  than one chunk, as a read on a stream returns what is available.
\<close>

datatype rd_event = Chunk "byte list" | Fail error

fun Read :: "rd_event list \<Rightarrow> nat \<Rightarrow> (byte list \<times> error option) \<times> rd_event list" where
  "Read [] n = (([], Some EOF), [])"
| "Read (Fail e # r) n = (([], Some e), r)"
| "Read (Chunk bs # r) n =
     (if length bs \<le> n then ((bs, None), r)
      else ((take n bs, None), Chunk (drop n bs) # r))"

text \<open>
  \<^verbatim>\<open>io.Copy(b, io.LimitReader(c.Reader, N))\<close>. The destination is a
  \<^verbatim>\<open>bytes.Buffer\<close>, so the copy is \<^verbatim>\<open>b.ReadFrom\<close>: it reads until the reader returns
  an error, appends what it read, and returns nil when that error is \<^verbatim>\<open>io.EOF\<close>. The
  limited reader returns \<^verbatim>\<open>io.EOF\<close> without reading once \<^verbatim>\<open>N <= 0\<close>, and otherwise
  asks the stream for at most \<^verbatim>\<open>N\<close> bytes and subtracts what it got. The result is
  the bytes appended, the error of the copy, and the rest of the stream.
\<close>

function ReadFrom :: "rd_event list \<Rightarrow> int \<Rightarrow> (byte list \<times> error option) \<times> rd_event list" where
  "ReadFrom r N =
     (if N \<le> 0 then (([], None), r)
      else
        (case Read r (nat N) of
           ((bs, Some EOF), r') \<Rightarrow> ((bs, None), r')
         | ((bs, Some e), r') \<Rightarrow> ((bs, Some e), r')
         | ((bs, None), r') \<Rightarrow>
             (case ReadFrom r' (N - int (length bs)) of
                ((bs', e'), r'') \<Rightarrow> ((bs @ bs', e'), r''))))"
  by pat_completeness auto
termination
  apply (relation "measures [\<lambda>(r, N). length r, \<lambda>(r, N). nat N]")
   apply simp
  subgoal for r N x bs r'
    by (cases "(r, nat N)" rule: Read.cases) (auto split: if_splits)
  done

declare ReadFrom.simps [simp del]

text \<open>
  The \<^verbatim>\<open>io.Writer\<close> of a connection is the list of the errors its successive writes
  will return (\<open>None\<close> for a write that succeeds); past the end of the list every
  write succeeds.
\<close>

fun Write :: "error option list \<Rightarrow> error option \<times> error option list" where
  "Write [] = (None, [])"
| "Write (e # ws) = (e, ws)"

subsection \<open>The connection and its loop\<close>

text \<open>
  What is read and written on a connection, in order: \<open>Rx tag t b\<close> is a frame that was
  read, with the tag and the type decoded from its header (the tags of the request span)
  and the buffer \<open>b\<close> handed to the dispatcher; \<open>Tx bs e\<close> is a call
  \<^verbatim>\<open>c.Write(bs)\<close> that returned the error \<open>e\<close>.
\<close>

datatype io_event = Rx Tag MType "byte list" | Tx "byte list" "error option"

text \<open>
  \<^verbatim>\<open>type conn struct\<close>: the fields \<^verbatim>\<open>server\<close>, \<^verbatim>\<open>Reader\<close>, \<^verbatim>\<open>Writer\<close>,
  \<^verbatim>\<open>dead\<close> and \<^verbatim>\<open>requestCounter\<close>; \<open>closed\<close> is the state of the
  \<^verbatim>\<open>Closer\<close>. Two fields belong to the model only: \<open>wire\<close> is the log of the frames
  read and of the writes, and \<open>panicked\<close> records a run-time panic, which ends the
  goroutine without setting \<^verbatim>\<open>dead\<close>. Logging and tracing spans have no effect on
  the state and are left out.
\<close>

record 'ns conn =
  server :: "'ns Server"
  Reader :: "rd_event list"
  Writer :: "error option list"
  dead :: bool
  closed :: bool
  requestCounter :: "64 word"
  panicked :: bool
  wire :: "io_event list"

text \<open>
  \<^verbatim>\<open>sz := int64(l[0]) + int64(l[1])<<8 + int64(l[2])<<16 + int64(l[3])<<24\<close>. The sum
  is below \<open>2 ^ 32\<close>, so the 64-bit arithmetic of the source cannot wrap and the value
  is an \<open>int\<close>.
\<close>

definition frame_size :: "byte list \<Rightarrow> int" where
  "frame_size l =
     uint (l ! 0) + push_bit 8 (uint (l ! 1)) + push_bit 16 (uint (l ! 2))
       + push_bit 24 (uint (l ! 3))"

text \<open>
  One iteration of \<^verbatim>\<open>for !c.dead { ... }\<close> in \<^verbatim>\<open>conn.serve\<close>. The buffer \<open>b\<close> starts
  as \<^verbatim>\<open>l[5:]\<close>, the two bytes of the tag, and the copy appends the body to it.
\<close>

definition serve_step :: "'ns handlers \<Rightarrow> 'ns conn \<Rightarrow> 'ns conn" where
  "serve_step h c0 =
     (let c = c0\<lparr>requestCounter := requestCounter c0 + 1\<rparr> in
      (case Read (Reader c) 7 of
         ((l, err), r1) \<Rightarrow>
           (if err \<noteq> None \<or> length l < 7 then (c\<lparr>Reader := r1, dead := True\<rparr>)
            else
              (let sz = frame_size l;
                   t = l ! 4;
                   tag = tag_of (l ! 5) (l ! 6)
               in
               (case ReadFrom r1 (sz - 7) of
                  ((body, cerr), r2) \<Rightarrow>
                    (if cerr \<noteq> None then (c\<lparr>Reader := r2, dead := True\<rparr>)
                     else
                       (let b = drop 5 l @ body;
                            c1 = c\<lparr>Reader := r2, wire := wire c @ [Rx tag t b]\<rparr>
                        in
                        (case Dispatch h (server c1) b t of
                           None \<Rightarrow> (c1\<lparr>panicked := True\<rparr>)
                         | Some (s', b', derr) \<Rightarrow>
                             (case Write (Writer c1) of
                                (werr, w') \<Rightarrow>
                                  (let c2 = c1\<lparr>server := s', Writer := w',
                                              wire := wire c1 @ [Tx b' werr]\<rparr>
                                   in (if werr \<noteq> None then (c2\<lparr>dead := True\<rparr>)
                                       else c2)))))))))))"

text \<open>The number of bytes still to come on a stream; it bounds the iterations of the loop.\<close>

fun stream_bytes :: "rd_event list \<Rightarrow> nat" where
  "stream_bytes [] = 0"
| "stream_bytes (Chunk bs # r) = length bs + stream_bytes r"
| "stream_bytes (Fail e # r) = stream_bytes r"

lemma Read_stream_bytes:
  "Read r n = ((bs, e), r') \<Longrightarrow> stream_bytes r' + length bs \<le> stream_bytes r"
  by (cases "(r, n)" rule: Read.cases) (auto split: if_splits)

lemma ReadFrom_stream_bytes: "stream_bytes (snd (ReadFrom r N)) \<le> stream_bytes r"
proof (induction r N rule: ReadFrom.induct)
  case (1 r N)
  show ?case
  proof (cases "N \<le> 0")
    case True
    then show ?thesis by (simp add: ReadFrom.simps [of r N])
  next
    case False
    obtain bs e r' where rd: "Read r (nat N) = ((bs, e), r')"
      by (metis surj_pair)
    have le: "stream_bytes r' \<le> stream_bytes r"
      using Read_stream_bytes [OF rd] by simp
    show ?thesis
    proof (cases e)
      case None
      have "stream_bytes (snd (ReadFrom r' (N - int (length bs)))) \<le> stream_bytes r'"
        using "1.IH" [OF False rd [symmetric] refl] None by simp
      with le False rd None show ?thesis
        by (auto simp: ReadFrom.simps [of r N] split: prod.splits)
    next
      case (Some x)
      with le False rd show ?thesis
        by (simp add: ReadFrom.simps [of r N] split: error.splits)
    qed
  qed
qed

lemma Read_full:
  "Read r n = ((l, None), r') \<Longrightarrow> length l = n \<Longrightarrow> stream_bytes r' + n \<le> stream_bytes r"
  using Read_stream_bytes [of r n l None r'] by simp

lemma serve_step_consumes:
  assumes "\<not> dead (serve_step h c)"
  shows "stream_bytes (Reader (serve_step h c)) < stream_bytes (Reader c) \<or> dead c"
proof -
  obtain l err r1 where rd: "Read (Reader c) 7 = ((l, err), r1)"
    by (metis surj_pair)
  obtain body cerr r2 where cp: "ReadFrom r1 (frame_size l - 7) = ((body, cerr), r2)"
    by (metis surj_pair)
  have ok: "err = None \<and> \<not> length l < 7"
  proof (rule ccontr)
    assume "\<not> (err = None \<and> \<not> length l < 7)"
    then have "dead (serve_step h c)"
      using rd by (simp add: serve_step_def)
    with assms show False by simp
  qed
  have "length l \<le> 7"
    using rd by (cases "(Reader c, 7::nat)" rule: Read.cases) (auto split: if_splits)
  with ok have len: "length l = 7" by simp
  have a: "stream_bytes r1 + 7 \<le> stream_bytes (Reader c)"
    using Read_full [of "Reader c" 7 l r1] rd ok len by simp
  have b: "stream_bytes r2 \<le> stream_bytes r1"
    using ReadFrom_stream_bytes [of r1 "frame_size l - 7"] cp by simp
  have "cerr = None"
  proof (rule ccontr)
    assume "cerr \<noteq> None"
    then have "dead (serve_step h c)"
      using rd cp ok by (simp add: serve_step_def)
    with assms show False by simp
  qed
  then have "Reader (serve_step h c) = r2"
    using rd cp ok
    by (simp add: serve_step_def Let_def split: option.splits prod.splits)
  with a b show ?thesis by simp
qed

text \<open>
  The loop \<^verbatim>\<open>for !c.dead\<close>: it is left only by the \<^verbatim>\<open>return\<close> that follows each
  \<^verbatim>\<open>c.dead = true\<close>, or by a panic.
\<close>

function serve_loop :: "'ns handlers \<Rightarrow> 'ns conn \<Rightarrow> 'ns conn" where
  "serve_loop h c = (if dead c \<or> panicked c then c else serve_loop h (serve_step h c))"
  by pat_completeness auto
termination
  apply (relation "measure (\<lambda>(h, c). if dead c \<or> panicked c then 0 else Suc (stream_bytes (Reader c)))")
   apply simp
  subgoal for h c
    using serve_step_consumes [of h c] by auto
  done

declare serve_loop.simps [simp del]

text \<open>\<^verbatim>\<open>func (c *conn) serve()\<close>: the loop, then the deferred \<^verbatim>\<open>c.Close()\<close>.\<close>

definition serve :: "'ns handlers \<Rightarrow> 'ns conn \<Rightarrow> 'ns conn" where
  "serve h c = (serve_loop h c)\<lparr>closed := True\<rparr>"

subsection \<open>The acceptor loop\<close>

text \<open>
  A \<^verbatim>\<open>time.Duration\<close> is a signed 64-bit count of nanoseconds. It is modelled as an
  \<open>int\<close>, and the one operation of the loop that could leave the 64-bit range,
  \<^verbatim>\<open>tempDelay *= 2\<close>, is wrapped by \<open>signed_take_bit 63\<close>.
\<close>

definition Millisecond :: int where "Millisecond = 1000000"
definition Second :: int where "Second = 1000000000"

text \<open>
  What one call \<^verbatim>\<open>ln.Accept()\<close> returns: a connection, or an error together with the
  truth value of \<^verbatim>\<open>ne, ok := err.(net.Error); ok && ne.Temporary()\<close>.
\<close>

datatype 'c accept_result = Accepted 'c | AcceptErr error bool

text \<open>
  What the loop does, in order: \<open>Sleep d\<close> is \<^verbatim>\<open>time.Sleep(d)\<close>, \<open>Spawn c\<close> is
  \<^verbatim>\<open>l.Accept(c)\<close>, which starts \<^verbatim>\<open>go c.serve()\<close> on a new connection and returns
  nil (\<^verbatim>\<open>newConn\<close> never returns an error).
\<close>

datatype 'c serve_event = Sleep int | Spawn 'c

text \<open>The delay computed in the branch of a temporary error.\<close>

definition next_delay :: "int \<Rightarrow> int" where
  "next_delay tempDelay =
     (let d = (if tempDelay = 0 then 5 * Millisecond else signed_take_bit 63 (tempDelay * 2))
      in if d > 1 * Second then 1 * Second else d)"

text \<open>
  The loop of \<^verbatim>\<open>NetListener.Serve\<close>, run on the results of the successive calls of
  \<^verbatim>\<open>ln.Accept()\<close>. The result is the list of what the loop did and the error that
  \<^verbatim>\<open>Serve\<close> returned; \<open>None\<close> says that the loop has not returned after the
  results given.
\<close>

fun Serve_loop :: "int \<Rightarrow> 'c accept_result list \<Rightarrow> 'c serve_event list \<times> error option" where
  "Serve_loop tempDelay [] = ([], None)"
| "Serve_loop tempDelay (AcceptErr err temporary # rs) =
     (if temporary then
        (case Serve_loop (next_delay tempDelay) rs of
           (evs, ret) \<Rightarrow> (Sleep (next_delay tempDelay) # evs, ret))
      else ([], Some err))"
| "Serve_loop tempDelay (Accepted conn # rs) =
     (case Serve_loop 0 rs of (evs, ret) \<Rightarrow> (Spawn conn # evs, ret))"

text \<open>\<^verbatim>\<open>var tempDelay time.Duration\<close> starts at zero.\<close>

definition Serve :: "'c accept_result list \<Rightarrow> 'c serve_event list \<times> error option" where
  "Serve rs = Serve_loop 0 rs"

text \<open>
  The delay the spec describes for the \<open>i\<close>-th consecutive temporary failure, counted
  from zero: 5 ms doubled \<open>i\<close> times, capped at one second.
\<close>

definition backoff :: "nat \<Rightarrow> int" where
  "backoff i = min (5 * Millisecond * 2 ^ i) (1 * Second)"

subsection \<open>Notions used to state the properties\<close>

text \<open>A sequence of calls of \<^verbatim>\<open>Dispatch\<close> on the same server, each with its buffer and
  type; \<open>None\<close> when one of them panics.\<close>

fun Dispatch_all ::
  "'ns handlers \<Rightarrow> 'ns Server \<Rightarrow> (byte list \<times> MType) list \<Rightarrow> 'ns Server option" where
  "Dispatch_all h s [] = Some s"
| "Dispatch_all h s ((b, t) # ms) =
     (case Dispatch h s b t of None \<Rightarrow> None | Some (s', b', e) \<Rightarrow> Dispatch_all h s' ms)"

text \<open>
  The handlers are parameters, and a method on \<^verbatim>\<open>*Server\<close> could assign to the flag.
  \<open>keeps_Versioned f\<close> says that the handler \<open>f\<close> does not clear a flag that is set.
\<close>

definition keeps_Versioned :: "'ns handler \<Rightarrow> bool" where
  "keeps_Versioned f = (\<forall>s b. Versioned s \<longrightarrow> Versioned (fst (f s b)))"

definition handlers_keep_Versioned :: "'ns handlers \<Rightarrow> bool" where
  "handlers_keep_Versioned h =
     (keeps_Versioned (SrvRversion h) \<and> keeps_Versioned (SrvRattach h) \<and>
      keeps_Versioned (SrvRflush h) \<and> keeps_Versioned (SrvRwalk h) \<and>
      keeps_Versioned (SrvRopen h) \<and> keeps_Versioned (SrvRcreate h) \<and>
      keeps_Versioned (SrvRclunk h) \<and> keeps_Versioned (SrvRstat h) \<and>
      keeps_Versioned (SrvRwstat h) \<and> keeps_Versioned (SrvRremove h) \<and>
      keeps_Versioned (SrvRread h) \<and> keeps_Versioned (SrvRwrite h))"

text \<open>The types that have a case in the second \<^verbatim>\<open>switch\<close> of \<^verbatim>\<open>Dispatch\<close>.\<close>

definition handled_types :: "MType set" where
  "handled_types = {Tversion, Tattach, Tflush, Twalk, Topen, Tcreate, Tclunk, Tstat, Twstat,
                    Tremove, Tread, Twrite}"

text \<open>
  The value of a little-endian unsigned integer, as the spec's wire codec reads it: the
  first byte is the least significant.
\<close>

fun le_val :: "byte list \<Rightarrow> nat" where
  "le_val [] = 0"
| "le_val (b # bs) = unat b + 256 * le_val bs"

text \<open>The bytes a stream delivers before its first failing read or its end.\<close>

fun stream_data :: "rd_event list \<Rightarrow> byte list" where
  "stream_data [] = []"
| "stream_data (Chunk bs # r) = bs @ stream_data r"
| "stream_data (Fail e # r) = []"

text \<open>
  A log in which every frame read is directly followed by one write, and nothing else
  occurs: the shape of the log of a loop that answers each request before it reads the
  next.
\<close>

fun serial :: "io_event list \<Rightarrow> bool" where
  "serial [] = True"
| "serial (Rx tag t b # Tx r e # tr) = serial tr"
| "serial _ = False"

subsection \<open>Concrete handlers and connections for the closed examples\<close>

text \<open>
  The theorems below hold for every choice of the handlers. The closed examples need one
  choice: \<open>reply_with rt\<close> answers a request with the bare frame of type \<open>rt\<close> that
  carries the tag of the request, and \<open>failing\<close> returns an error and leaves server and
  buffer as they are.
\<close>

definition reply_with :: "MType \<Rightarrow> 'ns handler" where
  "reply_with rt s b = (s, le32 7 @ [rt] @ take 2 b, None)"

definition failing :: "'ns handler" where
  "failing s b = (s, b, Some (Errorf ''handler failed''))"

definition stub_handlers :: "unit handlers" where
  "stub_handlers =
     \<lparr>SrvRversion = reply_with 101, SrvRattach = reply_with 105, SrvRflush = reply_with 109,
      SrvRwalk = reply_with 111, SrvRopen = reply_with 113, SrvRcreate = reply_with 115,
      SrvRclunk = reply_with 121, SrvRstat = reply_with 125, SrvRwstat = reply_with 127,
      SrvRremove = reply_with 123, SrvRread = reply_with 117, SrvRwrite = reply_with 119\<rparr>"

definition failing_handlers :: "unit handlers" where
  "failing_handlers = stub_handlers\<lparr>SrvRversion := failing\<rparr>"

text \<open>
  A connection as \<^verbatim>\<open>newConn\<close> and \<^verbatim>\<open>ServeFromRWC\<close> build it, on a given stream: the
  server is fresh (\<^verbatim>\<open>Versioned\<close> is false), nothing has been read or written.
\<close>

definition new_conn :: "rd_event list \<Rightarrow> error option list \<Rightarrow> unit conn" where
  "new_conn r w =
     \<lparr>server = \<lparr>NS = (), Versioned = False\<rparr>, Reader = r, Writer = w, dead = False,
      closed = False, requestCounter = 0, panicked = False, wire = []\<rparr>"

text \<open>
  The frame of scenario 2 of the spec:
  \<^verbatim>\<open>Tattach{tag=1, fid=0, afid=NOFID, uname="u", aname=""}\<close>, 20 bytes.
\<close>

definition tattach_frame :: "byte list" where
  "tattach_frame = [20,0,0,0, 104, 1,0, 0,0,0,0, 255,255,255,255, 1,0,117, 0,0]"

text \<open>The same connection after a Tversion: the flag is set.\<close>

definition versioned_conn :: "rd_event list \<Rightarrow> error option list \<Rightarrow> unit conn" where
  "versioned_conn r w = (new_conn r w)\<lparr>server := \<lparr>NS = (), Versioned = True\<rparr>\<rparr>"

text \<open>\<^verbatim>\<open>Tauth{tag=2, afid=0, uname="u", aname=""}\<close>, 16 bytes, and
  \<^verbatim>\<open>Tversion{tag=NOTAG, msize=8192, version="9P2000"}\<close>, 19 bytes.\<close>

definition tauth_frame :: "byte list" where
  "tauth_frame = [16,0,0,0, 102, 2,0, 0,0,0,0, 1,0,117, 0,0]"

definition tversion_frame :: "byte list" where
  "tversion_frame = [19,0,0,0, 100, 255,255, 0,32,0,0, 6,0, 57,80,50,48,48,48]"

text \<open>The frames of scenario 6 of the spec: \<^verbatim>\<open>Tread{tag=5, fid=1, offset=0, count=4096}\<close>,
  23 bytes, and \<^verbatim>\<open>Tflush{tag=6, oldtag=5}\<close>, 9 bytes.\<close>

definition tread_frame :: "byte list" where
  "tread_frame = [23,0,0,0, 116, 5,0, 1,0,0,0, 0,0,0,0,0,0,0,0, 0,16,0,0]"

definition tflush_frame :: "byte list" where
  "tflush_frame = [9,0,0,0, 108, 6,0, 5,0]"

section \<open>Properties of the acceptor loop\<close>

lemma next_delay_zero: "next_delay 0 = backoff 0"
  by (simp add: next_delay_def backoff_def Millisecond_def Second_def)

lemma backoff_pos: "0 < backoff i"
  by (simp add: backoff_def Millisecond_def Second_def)

lemma backoff_le: "backoff i \<le> 1000000000"
  by (simp add: backoff_def Millisecond_def Second_def)

text \<open>
  Doubling a delay that the loop has reached stays far below \<open>2 ^ 63\<close>, so the
  multiplication of the source never wraps.
\<close>

lemma next_delay_backoff: "next_delay (backoff i) = backoff (Suc i)"
proof -
  let ?d = "backoff i"
  have pos: "0 < ?d" by (rule backoff_pos)
  have le: "?d \<le> 1000000000" by (rule backoff_le)
  have "- (2 ^ 63) \<le> ?d * 2" "?d * 2 < 2 ^ 63"
    using pos le by simp_all
  then have wrap: "signed_take_bit 63 (?d * 2) = ?d * 2"
    by (simp add: signed_take_bit_int_eq_self)
  have "next_delay ?d = min (?d * 2) (1 * Second)"
    using pos wrap by (simp add: next_delay_def Let_def min_def)
  also have "\<dots> = backoff (Suc i)"
    by (simp add: backoff_def min_def Millisecond_def Second_def)
  finally show ?thesis .
qed

lemma Serve_loop_temporary:
  "Serve_loop (backoff j) (map (\<lambda>e. AcceptErr e True) es @ rs) =
     (map (\<lambda>i. Sleep (backoff (Suc j + i))) [0..<length es]
        @ fst (Serve_loop (backoff (j + length es)) rs),
      snd (Serve_loop (backoff (j + length es)) rs))"
proof (induction es arbitrary: j)
  case Nil
  show ?case by simp
next
  case (Cons e es)
  show ?case
    using Cons.IH [of "Suc j"]
    by (simp add: next_delay_backoff map_upt_Suc split: prod.splits del: upt_Suc)
qed

lemma Serve_loop_from_zero:
  "Serve_loop 0 (map (\<lambda>e. AcceptErr e True) es @ AcceptErr e' False # rest) =
     (map (\<lambda>i. Sleep (backoff i)) [0..<length es], Some e')"
proof (cases es)
  case Nil
  then show ?thesis by simp
next
  case (Cons e es')
  show ?thesis
    using Serve_loop_temporary [of 0 es' "AcceptErr e' False # rest"]
    by (simp add: Cons next_delay_zero map_upt_Suc del: upt_Suc)
qed

text \<open>
  Claim C6. In the acceptor loop a run of temporary Accept errors makes the loop sleep
  5 ms after the first failure of the run and twice the previous delay after each
  further one, never more than one second: the \<open>i\<close>-th sleep of the run (from zero)
  lasts \<open>min (5 ms * 2 ^ i) (1 s)\<close>. This holds for a run at the start of
  \<^verbatim>\<open>Serve\<close> and for a run that follows a successful accept, whatever the delay
  \<open>d\<close> was before that accept: the accept resets it. An Accept error that is not
  temporary makes \<^verbatim>\<open>Serve\<close> return that error; the loop does nothing more, whatever
  further results \<open>rest\<close> the listener would have given.
\<close>

theorem Serve_backoff:
  "Serve (map (\<lambda>e. AcceptErr e True) es @ AcceptErr e' False # rest) =
     (map (\<lambda>i. Sleep (min (5 * Millisecond * 2 ^ i) (1 * Second))) [0..<length es], Some e')
   \<and> Serve_loop d (Accepted c # map (\<lambda>e. AcceptErr e True) es @ AcceptErr e' False # rest) =
     (Spawn c # map (\<lambda>i. Sleep (min (5 * Millisecond * 2 ^ i) (1 * Second))) [0..<length es],
      Some e')"
  using Serve_loop_from_zero [of es e' rest]
  by (simp add: Serve_def backoff_def del: upt_Suc)

section \<open>Properties of Dispatch and of one iteration of the loop\<close>

lemma drop5_header: "length l = 7 \<Longrightarrow> drop 5 l = [l ! 5, l ! 6]"
proof -
  assume len: "length l = 7"
  then obtain a b c d e f g where "l = [a, b, c, d, e, f, g]"
    by (auto simp: length_Suc_conv eval_nat_numeral)
  then show ?thesis by simp
qed


text \<open>The buffer that \<^verbatim>\<open>conn.serve\<close> hands over holds the two bytes of the tag, so
  the indexing in the gate never panics.\<close>

lemma Dispatch_no_panic: "Dispatch h s (d0 # d1 # rest) t \<noteq> None"
  by (simp add: Dispatch_def Let_def del: not_None_eq)

lemma serve_step_header_fails:
  "Read (Reader c) 7 = ((l, err), r1) \<Longrightarrow> err \<noteq> None \<or> length l < 7 \<Longrightarrow>
   serve_step h c = c\<lparr>requestCounter := requestCounter c + 1, Reader := r1, dead := True\<rparr>"
  by (simp add: serve_step_def)

lemma serve_step_body_fails:
  "Read (Reader c) 7 = ((l, None), r1) \<Longrightarrow> length l = 7 \<Longrightarrow>
   ReadFrom r1 (frame_size l - 7) = ((body, Some e), r2) \<Longrightarrow>
   serve_step h c = c\<lparr>requestCounter := requestCounter c + 1, Reader := r2, dead := True\<rparr>"
  by (simp add: serve_step_def)

lemma serve_step_dispatched:
  assumes "Read (Reader c) 7 = ((l, None), r1)" and "length l = 7"
    and "ReadFrom r1 (frame_size l - 7) = ((body, None), r2)"
    and "Dispatch h (server c) (l ! 5 # l ! 6 # body) (l ! 4) = Some (s', b', derr)"
    and "Write (Writer c) = (werr, w')"
  shows "serve_step h c =
     c\<lparr>requestCounter := requestCounter c + 1, Reader := r2,
       wire := wire c @ [Rx (tag_of (l ! 5) (l ! 6)) (l ! 4) (l ! 5 # l ! 6 # body), Tx b' werr],
       server := s', Writer := w', dead := (werr \<noteq> None \<or> dead c)\<rparr>"
  using assms by (cases werr) (simp_all add: serve_step_def drop5_header Let_def)

lemma serve_loop_stop: "dead c \<or> panicked c \<Longrightarrow> serve_loop h c = c"
  by (simp add: serve_loop.simps [of h c])

lemma serve_loop_step:
  "\<not> dead c \<Longrightarrow> \<not> panicked c \<Longrightarrow> serve_loop h c = serve_loop h (serve_step h c)"
  by (simp add: serve_loop.simps [of h c])

lemma Dispatch_unsupported:
  "t \<notin> handled_types \<Longrightarrow> Versioned s \<Longrightarrow>
   Dispatch h s (d0 # d1 # rest) t =
     Some (s, MarshalRerrorPkt (tag_of d0 d1) (not_supported t), None)"
  by (simp add: Dispatch_def handled_types_def ServerError_def)

lemma keeps_VersionedD:
  "keeps_Versioned f \<Longrightarrow> Versioned s \<Longrightarrow> f s b = (s', r) \<Longrightarrow> Versioned s'"
  by (metis keeps_Versioned_def fst_conv)

lemma keeps_reply_with: "keeps_Versioned (reply_with rt)"
  by (simp add: keeps_Versioned_def reply_with_def)

lemma keeps_failing: "keeps_Versioned failing"
  by (simp add: keeps_Versioned_def failing_def)

lemma Dispatch_keeps_Versioned:
  assumes k: "handlers_keep_Versioned h" and v: "Versioned s"
    and d: "Dispatch h s b t = Some (s', b', e)"
  shows "Versioned s'"
proof (cases "t = Tversion")
  case True
  have "keeps_Versioned (SrvRversion h)" using k by (simp add: handlers_keep_Versioned_def)
  moreover have "SrvRversion h (s\<lparr>Versioned := True\<rparr>) b = (s', b', e)"
    using d True by (simp add: Dispatch_def)
  ultimately show ?thesis
    using keeps_VersionedD [of "SrvRversion h" "s\<lparr>Versioned := True\<rparr>" b s' "(b', e)"] by simp
next
  case False
  with k v d show ?thesis
    by (auto simp: Dispatch_def handlers_keep_Versioned_def split: if_splits
        dest: keeps_VersionedD [of _ s b s' "(b', e)"])
qed

text \<open>Every iteration takes one of three courses.\<close>

lemma Read_length: "Read r n = ((l, e), r') \<Longrightarrow> length l \<le> n"
  by (cases "(r, n)" rule: Read.cases) (auto split: if_splits)

lemma serve_step_cases:
  obtains (header) l err r1 where
      "Read (Reader c) 7 = ((l, err), r1)" "err \<noteq> None \<or> length l < 7"
      "serve_step h c = c\<lparr>requestCounter := requestCounter c + 1, Reader := r1, dead := True\<rparr>"
  | (body) l r1 body e r2 where
      "Read (Reader c) 7 = ((l, None), r1)" "length l = 7"
      "ReadFrom r1 (frame_size l - 7) = ((body, Some e), r2)"
      "serve_step h c = c\<lparr>requestCounter := requestCounter c + 1, Reader := r2, dead := True\<rparr>"
  | (dispatched) l r1 body r2 s' b' derr werr w' where
      "Read (Reader c) 7 = ((l, None), r1)" "length l = 7"
      "ReadFrom r1 (frame_size l - 7) = ((body, None), r2)"
      "Dispatch h (server c) (l ! 5 # l ! 6 # body) (l ! 4) = Some (s', b', derr)"
      "Write (Writer c) = (werr, w')"
      "serve_step h c =
         c\<lparr>requestCounter := requestCounter c + 1, Reader := r2,
           wire := wire c @ [Rx (tag_of (l ! 5) (l ! 6)) (l ! 4) (l ! 5 # l ! 6 # body), Tx b' werr],
           server := s', Writer := w', dead := (werr \<noteq> None \<or> dead c)\<rparr>"
proof -
  obtain l err r1 where rd: "Read (Reader c) 7 = ((l, err), r1)"
    by (metis surj_pair)
  show thesis
  proof (cases "err \<noteq> None \<or> length l < 7")
    case True
    then show ?thesis
      using rd serve_step_header_fails [OF rd True] header by blast
  next
    case False
    then have e: "err = None" and len: "length l = 7"
      using Read_length [OF rd] by auto
    obtain body cerr r2 where cp: "ReadFrom r1 (frame_size l - 7) = ((body, cerr), r2)"
      by (metis surj_pair)
    show ?thesis
    proof (cases cerr)
      case (Some x)
      then show ?thesis
        using rd e len cp serve_step_body_fails [of c l r1 body x r2 h] body by blast
    next
      case None
      obtain s' b' derr where d: "Dispatch h (server c) (l ! 5 # l ! 6 # body) (l ! 4) = Some (s', b', derr)"
        using Dispatch_no_panic [of h "server c" "l ! 5" "l ! 6" body "l ! 4"] by auto
      obtain werr w' where w: "Write (Writer c) = (werr, w')"
        by (metis surj_pair)
      show ?thesis
        using rd e len cp None d w
          serve_step_dispatched [of c l r1 body r2 h s' b' derr werr w'] dispatched
        by blast
    qed
  qed
qed

lemma serve_step_panicked: "panicked (serve_step h c) = panicked c"
  by (rule serve_step_cases [of c h]) simp_all

lemma serve_loop_ends:
  "\<not> panicked c \<Longrightarrow> dead (serve_loop h c) \<and> \<not> panicked (serve_loop h c)"
proof (induction h c rule: serve_loop.induct)
  case (1 h c)
  show ?case
  proof (cases "dead c")
    case True
    with "1.prems" show ?thesis by (simp add: serve_loop_stop)
  next
    case False
    with "1.prems" have "serve_loop h c = serve_loop h (serve_step h c)"
      by (simp add: serve_loop_step)
    moreover have "dead (serve_loop h (serve_step h c)) \<and> \<not> panicked (serve_loop h (serve_step h c))"
      using "1.IH" False "1.prems" by (simp add: serve_step_panicked)
    ultimately show ?thesis by simp
  qed
qed

subsection \<open>Little-endian fields and the body of a frame\<close>

lemma frame_size_le_val: "length l = 7 \<Longrightarrow> frame_size l = int (le_val (take 4 l))"
proof -
  assume len: "length l = 7"
  then obtain a b c d e f g where "l = [a, b, c, d, e, f, g]"
    by (auto simp: length_Suc_conv eval_nat_numeral)
  then show ?thesis
    by (simp add: frame_size_def push_bit_eq_mult)
qed

lemma unat_byte_less: "unat (a :: byte) < 256"
  using unsigned_less [of a, where ?'a = nat] by simp

lemma unat_tag_of: "unat (tag_of a b) = unat a + 256 * unat b"
proof -
  have a: "unat (ucast a :: Tag) = unat a"
    using unat_byte_less [of a] by (simp add: unsigned_ucast_eq take_bit_nat_eq_self)
  have "unat (ucast b :: Tag) = unat b"
    using unat_byte_less [of b] by (simp add: unsigned_ucast_eq take_bit_nat_eq_self)
  moreover have "unat (push_bit 8 (ucast b :: Tag)) = take_bit 16 (push_bit 8 (unat (ucast b :: Tag)))"
    using unsigned_push_bit_eq [of 8 "ucast b :: Tag", where ?'a = nat] by simp
  moreover have "take_bit 16 (push_bit 8 (unat b)) = (push_bit 8 (unat b) :: nat)"
    using unat_byte_less [of b] by (intro take_bit_nat_eq_self) (simp add: push_bit_eq_mult)
  ultimately have b: "unat (push_bit 8 (ucast b) :: Tag) = push_bit 8 (unat b)"
    by simp
  have disj: "\<not> bit (unat a) n \<or> \<not> bit (push_bit 8 (unat b) :: nat) n" for n
  proof (cases "n < 8")
    case True
    then show ?thesis by (simp add: bit_push_bit_iff)
  next
    case False
    then have "\<not> bit a n" by (auto dest: bit_imp_le_length)
    then show ?thesis by (simp add: bit_unsigned_iff)
  qed
  have "unat (tag_of a b) = unat a OR push_bit 8 (unat b)"
    by (simp add: tag_of_def unsigned_or_eq a b)
  also have "\<dots> = unat a + push_bit 8 (unat b)"
    using disjunctive_add [of "unat a" "push_bit 8 (unat b)"] disj by simp
  finally show ?thesis by (simp add: push_bit_eq_mult)
qed

lemma ReadFrom_exact:
  "nat N \<le> length (stream_data r) \<Longrightarrow>
   \<exists>r'. ReadFrom r N = ((take (nat N) (stream_data r), None), r')
        \<and> stream_data r' = drop (nat N) (stream_data r)"
proof (induction r N rule: ReadFrom.induct)
  case (1 r N)
  show ?case
  proof (cases "N \<le> 0")
    case True
    then show ?thesis by (simp add: ReadFrom.simps [of r N])
  next
    case False
    then have pos: "0 < nat N" by simp
    show ?thesis
    proof (cases r rule: stream_data.cases)
      case 1
      with "1.prems" pos show ?thesis by simp
    next
      case (2 bs r')
      show ?thesis
      proof (cases "length bs \<le> nat N")
        case True
        have rd: "((bs, None), r') = Read r (nat N)" using 2 True by simp
        have "nat (N - int (length bs)) \<le> length (stream_data r')"
          using "1.prems" 2 True by simp
        from "1.IH" [OF False rd refl refl this]
        obtain r'' where "ReadFrom r' (N - int (length bs)) =
            ((take (nat (N - int (length bs))) (stream_data r'), None), r'')"
          and "stream_data r'' = drop (nat (N - int (length bs))) (stream_data r')" by blast
        then show ?thesis
          using 2 True False by (simp add: ReadFrom.simps [of "Chunk bs # r'" N] nat_diff_distrib')
      next
        case long: False
        then show ?thesis
          using 2 False
          by (simp add: ReadFrom.simps [of "Chunk bs # r'" N] ReadFrom.simps [of _ 0])
      qed
    next
      case (3 e r')
      with "1.prems" pos show ?thesis by simp
    qed
  qed
qed

lemma ReadFrom_length: "int (length (fst (fst (ReadFrom r N)))) \<le> max 0 N"
proof (induction r N rule: ReadFrom.induct)
  case (1 r N)
  show ?case
  proof (cases "N \<le> 0")
    case True
    then show ?thesis by (simp add: ReadFrom.simps [of r N])
  next
    case False
    obtain bs e r' where rd: "Read r (nat N) = ((bs, e), r')"
      by (metis surj_pair)
    have len: "length bs \<le> nat N" using Read_length [OF rd] .
    show ?thesis
    proof (cases e)
      case None
      have "int (length (fst (fst (ReadFrom r' (N - int (length bs)))))) \<le> max 0 (N - int (length bs))"
        using "1.IH" [OF False rd [symmetric] refl] None by simp
      with len False rd None show ?thesis
        by (auto simp: ReadFrom.simps [of r N] split: prod.splits)
    next
      case (Some x)
      with len False rd show ?thesis
        by (auto simp: ReadFrom.simps [of r N] split: error.splits)
    qed
  qed
qed

subsection \<open>The shape of the log\<close>

lemma serial_append: "serial xs \<Longrightarrow> serial ys \<Longrightarrow> serial (xs @ ys)"
  by (induction xs rule: serial.induct) simp_all

lemma serve_step_serial: "serial (wire c) \<Longrightarrow> serial (wire (serve_step h c))"
  by (rule serve_step_cases [of c h]) (simp_all add: serial_append)

lemma serve_loop_serial: "serial (wire c) \<Longrightarrow> serial (wire (serve_loop h c))"
proof (induction h c rule: serve_loop.induct)
  case (1 h c)
  show ?case
  proof (cases "dead c \<or> panicked c")
    case True
    with "1.prems" show ?thesis by (simp add: serve_loop_stop)
  next
    case False
    then have "serve_loop h c = serve_loop h (serve_step h c)"
      by (simp add: serve_loop_step)
    then show ?thesis
      using "1.IH" [OF False] serve_step_serial [OF "1.prems"] by simp
  qed
qed

lemma serial_Rx:
  "serial tr \<Longrightarrow> i < length tr \<Longrightarrow> tr ! i = Rx tag t b \<Longrightarrow>
   even i \<and> Suc i < length tr \<and> (\<exists>r e. tr ! Suc i = Tx r e)"
proof (induction tr arbitrary: i rule: serial.induct)
  case 1
  then show ?case by simp
next
  case (2 tag' t' b' r' e' tr)
  show ?case
  proof (cases i)
    case 0
    then show ?thesis by simp
  next
    case (Suc i1)
    show ?thesis
    proof (cases i1)
      case 0
      with Suc "2.prems" show ?thesis by simp
    next
      case (Suc i2)
      with \<open>i = Suc i1\<close> "2.prems" "2.IH" [of i2] show ?thesis by simp
    qed
  qed
qed simp_all

lemma serial_Tx:
  "serial tr \<Longrightarrow> k < length tr \<Longrightarrow> tr ! k = Tx r e \<Longrightarrow>
   odd k \<and> (\<exists>tag t b. tr ! (k - 1) = Rx tag t b)"
proof (induction tr arbitrary: k rule: serial.induct)
  case 1
  then show ?case by simp
next
  case (2 tag' t' b' r' e' tr)
  show ?case
  proof (cases k)
    case 0
    with "2.prems" show ?thesis by simp
  next
    case (Suc k1)
    show ?thesis
    proof (cases k1)
      case 0
      with Suc show ?thesis by simp
    next
      case (Suc k2)
      with \<open>k = Suc k1\<close> "2.prems" "2.IH" [of k2] show ?thesis
        by (cases k2) auto
    qed
  qed
qed simp_all

section \<open>The claims about Dispatch and conn.serve\<close>



text \<open>
  Claim C2. On a connection that starts with an empty log, let the frame at position
  \<open>i\<close> of the log be a Tflush. The loop is serial: the reply to a frame is the write that
  directly follows its read, before the next frame is read. So the reply to the Tflush,
  the Rflush, is the entry \<open>i + 1\<close>; every frame read before the Tflush, the request
  that its oldtag names among them, had its reply written before the Tflush was read; and
  every write after the Rflush directly follows, and answers, a frame that was read after
  the Rflush was written. Hence no reply to the request named by oldtag is written after
  the Rflush. (A tag is the client's to use again: a later reply that carries the same
  number answers a later request.)
\<close>

theorem replies_precede_next_read:
  assumes "wire c = []"
    and "i < length (wire (serve h c))" and "wire (serve h c) ! i = Rx ftag Tflush fb"
  shows "(\<exists>r e. Suc i < length (wire (serve h c)) \<and> wire (serve h c) ! Suc i = Tx r e)
       \<and> (\<forall>j tag t b. j < i \<and> wire (serve h c) ! j = Rx tag t b \<longrightarrow>
             Suc j < i \<and> (\<exists>r e. wire (serve h c) ! Suc j = Tx r e))
       \<and> (\<forall>k r e. Suc i < k \<and> k < length (wire (serve h c)) \<and> wire (serve h c) ! k = Tx r e \<longrightarrow>
             Suc i < k - 1 \<and> (\<exists>tag t b. wire (serve h c) ! (k - 1) = Rx tag t b))"
proof -
  let ?tr = "wire (serve h c)"
  have s: "serial ?tr"
    using serve_loop_serial [of c h] assms(1) by (simp add: serve_def)
  have i: "even i" "Suc i < length ?tr" "\<exists>r e. ?tr ! Suc i = Tx r e"
    using serial_Rx [OF s assms(2,3)] by simp_all
  have A: "Suc j < i \<and> (\<exists>r e. ?tr ! Suc j = Tx r e)"
    if "j < i" and "?tr ! j = Rx tag t b" for j tag t b
  proof -
    have "j < length ?tr" using that(1) assms(2) by simp
    from serial_Rx [OF s this that(2)] have "even j" and tx: "\<exists>r e. ?tr ! Suc j = Tx r e"
      by simp_all
    have "Suc j \<noteq> i" using \<open>even j\<close> \<open>even i\<close> by auto
    with that(1) tx show ?thesis by simp
  qed
  have B: "Suc i < k - 1 \<and> (\<exists>tag t b. ?tr ! (k - 1) = Rx tag t b)"
    if "Suc i < k" and "k < length ?tr" and "?tr ! k = Tx r e" for k r e
  proof -
    from serial_Tx [OF s that(2,3)] have "odd k" and rx: "\<exists>tag t b. ?tr ! (k - 1) = Rx tag t b"
      by simp_all
    have "k - 1 \<noteq> Suc i" using \<open>odd k\<close> \<open>even i\<close> that(1) by presburger
    with that(1) rx show ?thesis by auto
  qed
  from i A B show ?thesis by blast
qed

text \<open>
  Scenario 6 of the spec on a connection: Tversion, then Tread with tag 5, then Tflush
  with tag 6 and oldtag 5. The reply to the Tread is entry 3 of the log, the Tflush is
  read as entry 4, the Rflush is entry 5, and the log ends there.
\<close>

theorem replies_precede_next_read_witness:
  "wire (new_conn [Chunk (tversion_frame @ tread_frame @ tflush_frame)] []) = []
   \<and> wire (serve stub_handlers
          (new_conn [Chunk (tversion_frame @ tread_frame @ tflush_frame)] [])) =
     [Rx 65535 Tversion [255,255, 0,32,0,0, 6,0, 57,80,50,48,48,48],
      Tx [7,0,0,0, 101, 255,255] None,
      Rx 5 Tread [5,0, 1,0,0,0, 0,0,0,0,0,0,0,0, 0,16,0,0], Tx [7,0,0,0, 117, 5,0] None,
      Rx 6 Tflush [6,0, 5,0], Tx [7,0,0,0, 109, 6,0] None]
   \<and> (\<exists>r e. wire (serve stub_handlers
          (new_conn [Chunk (tversion_frame @ tread_frame @ tflush_frame)] [])) ! 5 = Tx r e)"
proof -
  let ?c = "new_conn [Chunk (tversion_frame @ tread_frame @ tflush_frame)] []"
  have 1: "wire ?c = []" by (simp add: new_conn_def)
  have w: "wire (serve stub_handlers ?c) =
     [Rx 65535 Tversion [255,255, 0,32,0,0, 6,0, 57,80,50,48,48,48],
      Tx [7,0,0,0, 101, 255,255] None,
      Rx 5 Tread [5,0, 1,0,0,0, 0,0,0,0,0,0,0,0, 0,16,0,0], Tx [7,0,0,0, 117, 5,0] None,
      Rx 6 Tflush [6,0, 5,0], Tx [7,0,0,0, 109, 6,0] None]"
    by (simp add: serve_def serve_loop_step serve_loop_stop serve_step_def new_conn_def
        tversion_frame_def tread_frame_def tflush_frame_def ReadFrom.simps frame_size_def
        tag_of_def Dispatch_def mtype_defs stub_handlers_def reply_with_def le32_def Let_def)
  have 2: "4 < length (wire (serve stub_handlers ?c))" by (simp add: w)
  have 3: "wire (serve stub_handlers ?c) ! 4 = Rx 6 Tflush [6,0, 5,0]" by (simp add: w)
  from replies_precede_next_read [OF 1 2 3, THEN conjunct1]
  have "\<exists>r e. wire (serve stub_handlers ?c) ! 5 = Tx r e"
    by (simp add: eval_nat_numeral)
  with 1 w show ?thesis by blast
qed

text \<open>
  Claim C3, as the code has it. The claim says that the flag is set exactly when a
  Tversion completes successfully and that a Tversion whose handling fails leaves it
  unchanged. \<^verbatim>\<open>Dispatch\<close> assigns \<^verbatim>\<open>s.Versioned = true\<close> in its first
  \<^verbatim>\<open>switch\<close>, before the handler of Tversion is called. Here the handler of Tversion
  fails on a session whose flag is false: \<^verbatim>\<open>Dispatch\<close> returns the error of the
  handler, and the flag is true.
\<close>

theorem Tversion_failed_counterexample:
  "Dispatch failing_handlers \<lparr>NS = (), Versioned = False\<rparr> [255, 255] Tversion =
     Some (\<lparr>NS = (), Versioned = True\<rparr>, [255, 255], Some (Errorf ''handler failed''))"
  by (simp add: Dispatch_def failing_handlers_def failing_def)

text \<open>
  Claim C3, amended. The flag is set when a Tversion is dispatched, before its handler
  runs and whatever the handler returns: the result of \<^verbatim>\<open>Dispatch\<close> on a Tversion is
  the result of the handler on the server with the flag set, so with a handler that does
  not clear the flag the flag is true afterwards, error or not. While the flag is false,
  a message of any other type leaves the server as it is, so nothing but a Tversion opens
  the gate.
\<close>

theorem Versioned_set_on_dispatch:
  "Dispatch h s b Tversion = Some (SrvRversion h (s\<lparr>Versioned := True\<rparr>) b)
   \<and> (keeps_Versioned (SrvRversion h) \<and> Dispatch h s b Tversion = Some (s1, b1, e1)
        \<longrightarrow> Versioned s1)
   \<and> (t \<noteq> Tversion \<and> \<not> Versioned s \<and> Dispatch h s b' t = Some (s2, b2, e2) \<longrightarrow> s2 = s)"
proof -
  have 1: "Dispatch h s b Tversion = Some (SrvRversion h (s\<lparr>Versioned := True\<rparr>) b)"
    by (simp add: Dispatch_def)
  have 2: "Versioned s1"
    if "keeps_Versioned (SrvRversion h)" and "Dispatch h s b Tversion = Some (s1, b1, e1)"
    using that 1 keeps_VersionedD [of "SrvRversion h" "s\<lparr>Versioned := True\<rparr>" b s1 "(b1, e1)"]
    by simp
  have 3: "s2 = s"
    if "t \<noteq> Tversion" and "\<not> Versioned s" and "Dispatch h s b' t = Some (s2, b2, e2)"
    using that by (auto simp: Dispatch_def split: list.splits)
  from 1 2 3 show ?thesis by blast
qed

text \<open>
  The handler of Tversion that fails does not touch the flag; after the Tversion it
  fails on, the flag is true. A Tattach on the session whose flag is false leaves the
  server as it is.
\<close>

theorem Versioned_set_on_dispatch_witness:
  "keeps_Versioned (SrvRversion failing_handlers)
   \<and> Dispatch failing_handlers \<lparr>NS = (), Versioned = False\<rparr> [255, 255] Tversion =
        Some (\<lparr>NS = (), Versioned = True\<rparr>, [255, 255], Some (Errorf ''handler failed''))
   \<and> Versioned \<lparr>NS = (), Versioned = True\<rparr>
   \<and> Tattach \<noteq> Tversion \<and> \<not> Versioned \<lparr>NS = (), Versioned = False\<rparr>
   \<and> Dispatch failing_handlers \<lparr>NS = (), Versioned = False\<rparr> [1, 0] Tattach =
        Some (\<lparr>NS = (), Versioned = False\<rparr>,
              MarshalRerrorPkt 1 ''Dispatch: Tattach not allowed before Tversion'',
              Some (Errorf ''Dispatch: Tattach not allowed before Tversion''))"
proof -
  have k: "keeps_Versioned (SrvRversion failing_handlers)"
    by (simp add: failing_handlers_def keeps_failing)
  have v: "Dispatch failing_handlers \<lparr>NS = (), Versioned = False\<rparr> [255, 255] Tversion =
        Some (\<lparr>NS = (), Versioned = True\<rparr>, [255, 255], Some (Errorf ''handler failed''))"
    by (simp add: Dispatch_def failing_handlers_def failing_def)
  have a: "Dispatch failing_handlers \<lparr>NS = (), Versioned = False\<rparr> [1, 0] Tattach =
        Some (\<lparr>NS = (), Versioned = False\<rparr>,
              MarshalRerrorPkt 1 ''Dispatch: Tattach not allowed before Tversion'',
              Some (Errorf ''Dispatch: Tattach not allowed before Tversion''))"
    by (simp add: Dispatch_def mtype_defs tag_of_def not_allowed_def RPCNames_def)
  have t: "Tattach \<noteq> Tversion" by (simp add: mtype_defs)
  show ?thesis
    using Versioned_set_on_dispatch
      [where h = failing_handlers and s = "\<lparr>NS = (), Versioned = False\<rparr>"
         and b = "[255, 255]" and ?s1.0 = "\<lparr>NS = (), Versioned = True\<rparr>"
         and ?b1.0 = "[255, 255]" and ?e1.0 = "Some (Errorf ''handler failed'')"
         and t = Tattach and b' = "[1, 0]"]
      k v a t
    by simp
qed

text \<open>
  Claim C4, as the code has it. The claim says that the reader rejects a frame whose
  size exceeds the negotiated msize and treats a size below seven as malformed.
  \<^verbatim>\<open>conn.serve\<close> compares the size with nothing. First, on a fresh connection, a
  header that declares size 3 and type Tversion is handed to the dispatcher and answered.
  Second, after a Tversion that proposes msize 8192, a Tattach header that declares the
  size \<open>2 ^ 32 - 1\<close>, followed by four bytes and the end of the stream, is handed to
  the dispatcher with those four bytes and answered.
\<close>

theorem reader_size_check_counterexample:
  "wire (serve_step stub_handlers (new_conn [Chunk [3,0,0,0, 100, 255,255]] [])) =
     [Rx 65535 Tversion [255,255], Tx [7,0,0,0, 101, 255,255] None]
   \<and> wire (serve stub_handlers
        (new_conn [Chunk (tversion_frame @ [255,255,255,255, 104, 1,0, 0,0,0,0])] [])) =
     [Rx 65535 Tversion [255,255, 0,32,0,0, 6,0, 57,80,50,48,48,48],
      Tx [7,0,0,0, 101, 255,255] None,
      Rx 1 Tattach [1,0, 0,0,0,0], Tx [7,0,0,0, 105, 1,0] None]"
  by (simp add: serve_def serve_loop_step serve_loop_stop serve_step_def new_conn_def
      tversion_frame_def ReadFrom.simps frame_size_def tag_of_def Dispatch_def mtype_defs
      stub_handlers_def reply_with_def le32_def Let_def)

text \<open>
  Claim C4, amended. The reader does not compare the size of a frame with the msize of
  the session or with seven. After a header of seven bytes it copies at most
  \<open>size - 7\<close> bytes of body (none when the size is seven or less) and, the copy
  returning no error, hands the two bytes of the tag and the body to the dispatcher and
  writes the buffer the dispatcher leaves, whatever the size is.
\<close>

theorem reader_checks_no_size:
  assumes "Read (Reader c) 7 = ((l, None), r1)" and "length l = 7"
    and "ReadFrom r1 (frame_size l - 7) = ((body, None), r2)"
    and "Write (Writer c) = (werr, w')"
  shows "(\<exists>s' b' derr.
            Dispatch h (server c) (l ! 5 # l ! 6 # body) (l ! 4) = Some (s', b', derr)
          \<and> wire (serve_step h c) =
              wire c @ [Rx (tag_of (l ! 5) (l ! 6)) (l ! 4) (l ! 5 # l ! 6 # body), Tx b' werr]
          \<and> server (serve_step h c) = s')
       \<and> int (length body) \<le> max 0 (frame_size l - 7)"
proof -
  obtain s' b' derr where
    d: "Dispatch h (server c) (l ! 5 # l ! 6 # body) (l ! 4) = Some (s', b', derr)"
    using Dispatch_no_panic [of h "server c" "l ! 5" "l ! 6" body "l ! 4"] by auto
  note st = serve_step_dispatched [OF assms(1,2,3) d assms(4)]
  have "wire (serve_step h c) =
              wire c @ [Rx (tag_of (l ! 5) (l ! 6)) (l ! 4) (l ! 5 # l ! 6 # body), Tx b' werr]"
    and "server (serve_step h c) = s'"
    by (simp_all add: st)
  moreover have "int (length body) \<le> max 0 (frame_size l - 7)"
    using ReadFrom_length [of r1 "frame_size l - 7"] assms(3) by simp
  ultimately show ?thesis using d by blast
qed

theorem reader_checks_no_size_witness:
  "frame_size [3,0,0,0, 100, 255,255] = 3
   \<and> (\<exists>s' b' derr.
          Dispatch stub_handlers \<lparr>NS = (), Versioned = False\<rparr> [255,255] Tversion
            = Some (s', b', derr)
        \<and> wire (serve_step stub_handlers (new_conn [Chunk [3,0,0,0, 100, 255,255]] [])) =
            [Rx 65535 Tversion [255,255], Tx b' None])"
proof -
  let ?c = "new_conn [Chunk [3,0,0,0, 100, 255,255]] []"
  let ?l = "[3,0,0,0, 100, 255,255] :: byte list"
  have 1: "Read (Reader ?c) 7 = ((?l, None), [])" by (simp add: new_conn_def)
  have 2: "length ?l = 7" by simp
  have sz: "frame_size ?l = 3" by (simp add: frame_size_def)
  have 3: "ReadFrom [] (frame_size ?l - 7) = (([], None), [])"
    by (simp add: ReadFrom.simps sz)
  have 4: "Write (Writer ?c) = (None, [])" by (simp add: new_conn_def)
  have 5: "wire ?c = []" and 6: "server ?c = \<lparr>NS = (), Versioned = False\<rparr>"
    by (simp_all add: new_conn_def)
  from reader_checks_no_size [OF 1 2 3 4, of stub_handlers, THEN conjunct1]
  have "\<exists>s' b' derr.
          Dispatch stub_handlers \<lparr>NS = (), Versioned = False\<rparr> [255,255] Tversion
            = Some (s', b', derr)
        \<and> wire (serve_step stub_handlers ?c) = [Rx 65535 Tversion [255,255], Tx b' None]"
    by (simp add: 5 6 tag_of_def Tversion_def) blast
  with sz show ?thesis by simp
qed

text \<open>
  Claim C5, as the code has it. The claim covers every type that has no handler case,
  whatever the state of the session. Tauth has no case, and on a session whose flag is
  false the gate of \<^verbatim>\<open>Dispatch\<close> answers first: the Rerror says "not allowed before
  Tversion", not "not supported", and \<^verbatim>\<open>Dispatch\<close> returns an error, not nil.
\<close>

theorem unsupported_before_Tversion_counterexample:
  "Dispatch stub_handlers \<lparr>NS = (), Versioned = False\<rparr> [2, 0] Tauth =
     Some (\<lparr>NS = (), Versioned = False\<rparr>,
           MarshalRerrorPkt 2 ''Dispatch: Tauth not allowed before Tversion'',
           Some (Errorf ''Dispatch: Tauth not allowed before Tversion''))"
  by (simp add: Dispatch_def mtype_defs tag_of_def not_allowed_def RPCNames_def)

text \<open>
  Claim C5, amended: the same with the flag \<^verbatim>\<open>Versioned\<close> set. In an iteration that
  reads a whole frame whose type has no case in \<^verbatim>\<open>Dispatch\<close>, on a session whose flag
  is true, \<^verbatim>\<open>Dispatch\<close> puts the Rerror "Dispatch: <name of the type> not supported"
  with the tag of the request into the buffer and returns nil; the loop writes that Rerror
  and, the write succeeding, the connection stays up and the server is unchanged.
\<close>

theorem unsupported_type_answered:
  assumes "Read (Reader c) 7 = ((l, None), r1)" and "length l = 7"
    and "ReadFrom r1 (frame_size l - 7) = ((body, None), r2)"
    and "l ! 4 \<notin> handled_types" and "Versioned (server c)"
    and "Write (Writer c) = (None, w')"
  shows "Dispatch h (server c) (l ! 5 # l ! 6 # body) (l ! 4) =
           Some (server c,
                 MarshalRerrorPkt (tag_of (l ! 5) (l ! 6))
                   (''Dispatch: '' @ RPCNames (l ! 4) @ '' not supported''),
                 None)
       \<and> wire (serve_step h c) =
           wire c @ [Rx (tag_of (l ! 5) (l ! 6)) (l ! 4) (l ! 5 # l ! 6 # body),
                     Tx (MarshalRerrorPkt (tag_of (l ! 5) (l ! 6))
                          (''Dispatch: '' @ RPCNames (l ! 4) @ '' not supported''))
                        None]
       \<and> server (serve_step h c) = server c
       \<and> dead (serve_step h c) = dead c
       \<and> panicked (serve_step h c) = panicked c
       \<and> closed (serve_step h c) = closed c"
proof -
  have d: "Dispatch h (server c) (l ! 5 # l ! 6 # body) (l ! 4) =
      Some (server c, MarshalRerrorPkt (tag_of (l ! 5) (l ! 6)) (not_supported (l ! 4)), None)"
    using assms(4,5) by (rule Dispatch_unsupported)
  show ?thesis
    using serve_step_dispatched [OF assms(1,2,3) d assms(6)] d
    by (simp add: not_supported_def)
qed

theorem unsupported_type_answered_witness:
  "Tauth \<notin> handled_types
   \<and> wire (serve_step stub_handlers (versioned_conn [Chunk tauth_frame] [])) =
     [Rx 2 Tauth [2,0, 0,0,0,0, 1,0,117, 0,0],
      Tx (MarshalRerrorPkt 2 ''Dispatch: Tauth not supported'') None]
   \<and> dead (serve_step stub_handlers (versioned_conn [Chunk tauth_frame] [])) = False"
proof -
  let ?c = "versioned_conn [Chunk tauth_frame] []"
  have 1: "Read (Reader ?c) 7 =
      (([16,0,0,0,102,2,0], None), [Chunk [0,0,0,0, 1,0,117, 0,0]])"
    by (simp add: versioned_conn_def new_conn_def tauth_frame_def)
  have 2: "length [16,0,0,0,102,2,0::byte] = 7" by simp
  have 3: "ReadFrom [Chunk [0,0,0,0, 1,0,117, 0,0]] (frame_size [16,0,0,0,102,2,0] - 7)
       = (([0,0,0,0, 1,0,117, 0,0], None), [])"
    by (simp add: ReadFrom.simps frame_size_def)
  have 4: "[16,0,0,0,102,2,0::byte] ! 4 \<notin> handled_types"
    by (simp add: handled_types_def mtype_defs)
  have 5: "Versioned (server ?c)" by (simp add: versioned_conn_def new_conn_def)
  have 6: "Write (Writer ?c) = (None, [])" by (simp add: versioned_conn_def new_conn_def)
  show ?thesis
    using unsupported_type_answered [OF 1 2 3 4 5 6, of stub_handlers] 4
    by (simp add: versioned_conn_def new_conn_def tag_of_def RPCNames_def Tauth_def)
qed

text \<open>
  Claim C7. Take an iteration of the loop on a connection that is not dead, and name
  what its calls return: the read of the header \<open>(l, err)\<close>, the copy of the body
  \<open>(body, cerr)\<close>, the dispatcher \<open>(s', b', derr)\<close> and the write \<open>werr\<close>. The
  iteration marks the connection dead exactly when the read of the header returned an
  error or fewer than seven bytes, or the copy of the body returned an error, or the write
  returned an error. (The end of the stream inside a body is not an error of the copy:
  \<^verbatim>\<open>io.Copy\<close> returns nil there.) The iteration never panics. Whenever a frame was
  read, the buffer left by the dispatcher is written, also when the dispatcher returned an
  error, and an error of the dispatcher alone does not mark the connection dead. While the
  connection is not dead the loop goes on with the next frame; once it is dead
  \<^verbatim>\<open>serve\<close> returns and the stream is closed. \<^verbatim>\<open>serve\<close> returns only in this way:
  at its end the connection is dead and closed.
\<close>

theorem serve_terminates_exactly_on_io_errors:
  assumes "\<not> dead c" and "\<not> panicked c"
    and "Read (Reader c) 7 = ((l, err), r1)"
    and "ReadFrom r1 (frame_size l - 7) = ((body, cerr), r2)"
    and "Dispatch h (server c) (l ! 5 # l ! 6 # body) (l ! 4) = Some (s', b', derr)"
    and "Write (Writer c) = (werr, w')"
  shows "(dead (serve_step h c) \<longleftrightarrow> (err \<noteq> None \<or> length l < 7) \<or> cerr \<noteq> None \<or> werr \<noteq> None)
       \<and> \<not> panicked (serve_step h c)
       \<and> (err = None \<and> length l = 7 \<and> cerr = None \<longrightarrow>
            wire (serve_step h c) =
              wire c @ [Rx (tag_of (l ! 5) (l ! 6)) (l ! 4) (l ! 5 # l ! 6 # body), Tx b' werr])
       \<and> (err = None \<and> length l = 7 \<and> cerr = None \<and> werr = None \<and> derr \<noteq> None \<longrightarrow>
            \<not> dead (serve_step h c))
       \<and> (\<not> dead (serve_step h c) \<longrightarrow> serve h c = serve h (serve_step h c))
       \<and> (dead (serve_step h c) \<longrightarrow> serve h c = (serve_step h c)\<lparr>closed := True\<rparr>)
       \<and> dead (serve h c) \<and> closed (serve h c)"
proof -
  have p: "\<not> panicked (serve_step h c)"
    using assms(2) by (simp add: serve_step_panicked)
  have loop: "serve_loop h c = serve_loop h (serve_step h c)"
    using assms(1,2) by (rule serve_loop_step)
  have A: "dead (serve_step h c) \<longleftrightarrow> (err \<noteq> None \<or> length l < 7) \<or> cerr \<noteq> None \<or> werr \<noteq> None"
   and B: "err = None \<and> length l = 7 \<and> cerr = None \<longrightarrow>
            wire (serve_step h c) =
              wire c @ [Rx (tag_of (l ! 5) (l ! 6)) (l ! 4) (l ! 5 # l ! 6 # body), Tx b' werr]"
  proof -
    show "dead (serve_step h c) \<longleftrightarrow> (err \<noteq> None \<or> length l < 7) \<or> cerr \<noteq> None \<or> werr \<noteq> None"
    proof (cases "err \<noteq> None \<or> length l < 7")
      case True
      then show ?thesis using serve_step_header_fails [OF assms(3) True] by simp
    next
      case False
      then have e: "err = None" and len: "length l = 7"
        using Read_length [OF assms(3)] by auto
      show ?thesis
      proof (cases cerr)
        case (Some x)
        then show ?thesis
          using serve_step_body_fails [of c l r1 body x r2 h] assms(3,4) e len by simp
      next
        case None
        then show ?thesis
          using serve_step_dispatched [of c l r1 body r2 h s' b' derr werr w'] assms e len
          by simp
      qed
    qed
    show "err = None \<and> length l = 7 \<and> cerr = None \<longrightarrow>
            wire (serve_step h c) =
              wire c @ [Rx (tag_of (l ! 5) (l ! 6)) (l ! 4) (l ! 5 # l ! 6 # body), Tx b' werr]"
      using serve_step_dispatched [of c l r1 body r2 h s' b' derr werr w'] assms by simp
  qed
  have C: "\<not> dead (serve_step h c) \<longrightarrow> serve h c = serve h (serve_step h c)"
    using loop by (simp add: serve_def)
  have D: "dead (serve_step h c) \<longrightarrow> serve h c = (serve_step h c)\<lparr>closed := True\<rparr>"
    using loop by (simp add: serve_def serve_loop_stop)
  have E: "dead (serve h c) \<and> closed (serve h c)"
    using serve_loop_ends [OF assms(2), of h] by (simp add: serve_def)
  have F: "err = None \<and> length l = 7 \<and> cerr = None \<and> werr = None \<and> derr \<noteq> None \<longrightarrow>
            \<not> dead (serve_step h c)"
    using A by simp
  show ?thesis
    by (intro conjI A p B F C D conjunct1 [OF E] conjunct2 [OF E])
qed

text \<open>
  On a fresh connection a Tattach is read whole, the dispatcher returns the error of the
  gate, the write succeeds: the connection is not dead after the iteration, and the reply
  is on the wire. The stream ends there, so \<^verbatim>\<open>serve\<close> ends dead and closed.
\<close>

theorem serve_terminates_exactly_on_io_errors_witness:
  "Dispatch stub_handlers \<lparr>NS = (), Versioned = False\<rparr>
       [1,0, 0,0,0,0, 255,255,255,255, 1,0,117, 0,0] Tattach =
     Some (\<lparr>NS = (), Versioned = False\<rparr>,
           MarshalRerrorPkt 1 ''Dispatch: Tattach not allowed before Tversion'',
           Some (Errorf ''Dispatch: Tattach not allowed before Tversion''))
   \<and> dead (serve_step stub_handlers (new_conn [Chunk tattach_frame] [])) = False
   \<and> wire (serve_step stub_handlers (new_conn [Chunk tattach_frame] [])) =
       [Rx 1 Tattach [1,0, 0,0,0,0, 255,255,255,255, 1,0,117, 0,0],
        Tx (MarshalRerrorPkt 1 ''Dispatch: Tattach not allowed before Tversion'') None]
   \<and> dead (serve stub_handlers (new_conn [Chunk tattach_frame] []))
   \<and> closed (serve stub_handlers (new_conn [Chunk tattach_frame] []))"
proof -
  let ?c = "new_conn [Chunk tattach_frame] []"
  let ?l = "[20,0,0,0,104,1,0] :: byte list"
  let ?body = "[0,0,0,0, 255,255,255,255, 1,0,117, 0,0] :: byte list"
  have 1: "\<not> dead ?c" and 2: "\<not> panicked ?c" by (simp_all add: new_conn_def)
  have 3: "Read (Reader ?c) 7 = ((?l, None), [Chunk ?body])"
    by (simp add: new_conn_def tattach_frame_def)
  have 4: "ReadFrom [Chunk ?body] (frame_size ?l - 7) = ((?body, None), [])"
    by (simp add: ReadFrom.simps frame_size_def)
  have 5: "Dispatch stub_handlers (server ?c) (?l ! 5 # ?l ! 6 # ?body) (?l ! 4) =
     Some (\<lparr>NS = (), Versioned = False\<rparr>,
           MarshalRerrorPkt 1 ''Dispatch: Tattach not allowed before Tversion'',
           Some (Errorf ''Dispatch: Tattach not allowed before Tversion''))"
    by (simp add: new_conn_def Dispatch_def mtype_defs tag_of_def not_allowed_def RPCNames_def)
  have 6: "Write (Writer ?c) = (None, [])" by (simp add: new_conn_def)
  have 7: "wire ?c = []" and 8: "server ?c = \<lparr>NS = (), Versioned = False\<rparr>"
    by (simp_all add: new_conn_def)
  note T = serve_terminates_exactly_on_io_errors [OF 1 2 3 4 5 6]
  have a: "dead (serve_step stub_handlers ?c) = False"
    using T [THEN conjunct1] by simp
  have b: "wire (serve_step stub_handlers ?c) =
       [Rx 1 Tattach [1,0, 0,0,0,0, 255,255,255,255, 1,0,117, 0,0],
        Tx (MarshalRerrorPkt 1 ''Dispatch: Tattach not allowed before Tversion'') None]"
    using T [THEN conjunct2, THEN conjunct2, THEN conjunct1]
    by (simp add: 7 tag_of_def Tattach_def)
  have c: "dead (serve stub_handlers ?c)" "closed (serve stub_handlers ?c)"
    using T by blast+
  have d: "Dispatch stub_handlers \<lparr>NS = (), Versioned = False\<rparr>
       [1,0, 0,0,0,0, 255,255,255,255, 1,0,117, 0,0] Tattach =
     Some (\<lparr>NS = (), Versioned = False\<rparr>,
           MarshalRerrorPkt 1 ''Dispatch: Tattach not allowed before Tversion'',
           Some (Errorf ''Dispatch: Tattach not allowed before Tversion''))"
    using 5 by (simp add: 8 Tattach_def)
  show ?thesis
    by (intro conjI a b c d)
qed

text \<open>
  Claim C8, as the code has it. The claim says that after every header of seven bytes the
  reader reads exactly \<open>size - 7\<close> further bytes as the body. \<^verbatim>\<open>conn.serve\<close> copies
  the body through \<^verbatim>\<open>io.LimitReader(c.Reader, sz-7)\<close>, which bounds the copy and does
  not require it to be full. First, for a header that declares size 3 the difference is
  \<open>- 4\<close>: no byte is read, and the buffer with the two bytes of the tag alone is handed
  to the dispatcher and answered. Second, when the first twelve bytes of the Tattach frame
  of 20 bytes are followed by the end of the stream, \<open>size - 7\<close> is 13, five bytes are
  read as the body, the copy returns no error, and the frame is handed to the dispatcher
  and answered; the connection is not marked dead.
\<close>

theorem body_length_counterexample:
  "frame_size [3,0,0,0, 100, 255,255] - 7 = - 4
   \<and> wire (serve_step stub_handlers (new_conn [Chunk [3,0,0,0, 100, 255,255]] [])) =
       [Rx 65535 Tversion [255,255], Tx [7,0,0,0, 101, 255,255] None]
   \<and> frame_size (take 7 tattach_frame) - 7 = 13
   \<and> wire (serve_step stub_handlers (new_conn [Chunk (take 12 tattach_frame)] [])) =
       [Rx 1 Tattach [1,0, 0,0,0,0, 255],
        Tx (MarshalRerrorPkt 1 ''Dispatch: Tattach not allowed before Tversion'') None]
   \<and> dead (serve_step stub_handlers (new_conn [Chunk (take 12 tattach_frame)] [])) = False"
  by (simp add: serve_step_def new_conn_def tattach_frame_def ReadFrom.simps frame_size_def
      tag_of_def Dispatch_def mtype_defs stub_handlers_def reply_with_def le32_def Let_def
      not_allowed_def RPCNames_def)

text \<open>
  Claim C8, amended. After a header \<open>l\<close> of seven bytes, the reader takes the size of
  the frame from bytes 0 to 3, the type from byte 4 and the tag from bytes 5 and 6, size
  and tag as little-endian unsigned integers (\<open>le_val\<close>). The copy of the body that
  follows takes at most \<open>size - 7\<close> bytes. When the size is seven or less it takes none,
  returns no error and leaves the stream as it is, and the two bytes of the tag are handed
  to the dispatcher with the type of byte 4. When the size is at least seven and the
  stream delivers \<open>size - 7\<close> bytes, it takes exactly the next \<open>size - 7\<close> bytes,
  returns no error and leaves the stream right after them, and the two bytes of the tag
  followed by that body are handed to the dispatcher with the type of byte 4. Nothing is
  said here of a stream that ends or fails inside the body.
\<close>

theorem header_decoded_little_endian:
  assumes "Read (Reader c) 7 = ((l, None), r1)" and "length l = 7"
    and "ReadFrom r1 (frame_size l - 7) = ((body, cerr), r2)"
  shows "frame_size l = int (le_val (take 4 l))
       \<and> unat (tag_of (l ! 5) (l ! 6)) = le_val [l ! 5, l ! 6]
       \<and> int (length body) \<le> max 0 (frame_size l - 7)
       \<and> (frame_size l \<le> 7 \<longrightarrow>
            body = [] \<and> cerr = None \<and> r2 = r1
          \<and> (\<exists>reply werr. wire (serve_step h c) =
                wire c @ [Rx (tag_of (l ! 5) (l ! 6)) (l ! 4) [l ! 5, l ! 6], Tx reply werr]))
       \<and> (7 \<le> frame_size l \<and> nat (frame_size l - 7) \<le> length (stream_data r1) \<longrightarrow>
            body = take (nat (frame_size l - 7)) (stream_data r1)
          \<and> int (length body) = frame_size l - 7
          \<and> cerr = None
          \<and> stream_data r2 = drop (nat (frame_size l - 7)) (stream_data r1)
          \<and> (\<exists>reply werr. wire (serve_step h c) =
                wire c @ [Rx (tag_of (l ! 5) (l ! 6)) (l ! 4) (l ! 5 # l ! 6 # body),
                          Tx reply werr]))"
proof -
  let ?n = "nat (frame_size l - 7)"
  have sz: "frame_size l = int (le_val (take 4 l))"
    using assms(2) by (rule frame_size_le_val)
  have tg: "unat (tag_of (l ! 5) (l ! 6)) = le_val [l ! 5, l ! 6]"
    by (simp add: unat_tag_of)
  have le: "int (length body) \<le> max 0 (frame_size l - 7)"
    using ReadFrom_length [of r1 "frame_size l - 7"] assms(3) by simp
  have disp: "\<exists>reply werr. wire (serve_step h c) =
        wire c @ [Rx (tag_of (l ! 5) (l ! 6)) (l ! 4) (l ! 5 # l ! 6 # body), Tx reply werr]"
    if e: "cerr = None"
  proof -
    obtain s' b' derr where
      d: "Dispatch h (server c) (l ! 5 # l ! 6 # body) (l ! 4) = Some (s', b', derr)"
      using Dispatch_no_panic [of h "server c" "l ! 5" "l ! 6" body "l ! 4"] by auto
    obtain werr w' where w: "Write (Writer c) = (werr, w')"
      by (metis surj_pair)
    have cp: "ReadFrom r1 (frame_size l - 7) = ((body, None), r2)"
      using assms(3) e by simp
    have "wire (serve_step h c) =
        wire c @ [Rx (tag_of (l ! 5) (l ! 6)) (l ! 4) (l ! 5 # l ! 6 # body), Tx b' werr]"
      by (simp add: serve_step_dispatched [OF assms(1,2) cp d w])
    then show ?thesis by blast
  qed
  have small: "body = [] \<and> cerr = None \<and> r2 = r1
          \<and> (\<exists>reply werr. wire (serve_step h c) =
                wire c @ [Rx (tag_of (l ! 5) (l ! 6)) (l ! 4) [l ! 5, l ! 6], Tx reply werr])"
    if s7: "frame_size l \<le> 7"
  proof -
    have "ReadFrom r1 (frame_size l - 7) = (([], None), r1)"
      using s7 by (simp add: ReadFrom.simps [of r1 "frame_size l - 7"])
    with assms(3) have b: "body = []" and e: "cerr = None" and r: "r2 = r1" by simp_all
    from disp [OF e] b e r show ?thesis by simp
  qed
  have full: "body = take ?n (stream_data r1) \<and> int (length body) = frame_size l - 7
          \<and> cerr = None \<and> stream_data r2 = drop ?n (stream_data r1)
          \<and> (\<exists>reply werr. wire (serve_step h c) =
                wire c @ [Rx (tag_of (l ! 5) (l ! 6)) (l ! 4) (l ! 5 # l ! 6 # body),
                          Tx reply werr])"
    if g7: "7 \<le> frame_size l" and av: "?n \<le> length (stream_data r1)"
  proof -
    from ReadFrom_exact [of "frame_size l - 7" r1] av assms(3)
    have b: "body = take ?n (stream_data r1)" and e: "cerr = None"
      and r: "stream_data r2 = drop ?n (stream_data r1)"
      by auto
    have ln: "int (length body) = frame_size l - 7" using b av g7 by simp
    from disp [OF e] b ln e r show ?thesis by blast
  qed
  from sz tg le small full show ?thesis by blast
qed

text \<open>
  The Tattach frame of 20 bytes, whole: size 20, type 104, tag 1, and a body of 13 bytes
  that uses up the stream. And the header that declares size 3: no body.
\<close>

theorem header_decoded_little_endian_witness:
  "frame_size [20,0,0,0,104,1,0] = 20
   \<and> unat (tag_of 1 0) = 1
   \<and> nat (frame_size [20,0,0,0,104,1,0] - 7) \<le>
        length (stream_data [Chunk [0,0,0,0, 255,255,255,255, 1,0,117, 0,0]])
   \<and> (\<exists>reply werr.
         wire (serve_step stub_handlers (new_conn [Chunk tattach_frame] [])) =
           [Rx 1 Tattach [1,0, 0,0,0,0, 255,255,255,255, 1,0,117, 0,0], Tx reply werr])
   \<and> frame_size [3,0,0,0, 100, 255,255] \<le> 7
   \<and> (\<exists>reply werr.
         wire (serve_step stub_handlers (new_conn [Chunk [3,0,0,0, 100, 255,255]] [])) =
           [Rx 65535 Tversion [255,255], Tx reply werr])"
proof -
  let ?c = "new_conn [Chunk tattach_frame] []"
  let ?l = "[20,0,0,0,104,1,0] :: byte list"
  let ?body = "[0,0,0,0, 255,255,255,255, 1,0,117, 0,0] :: byte list"
  have 1: "Read (Reader ?c) 7 = ((?l, None), [Chunk ?body])"
    by (simp add: new_conn_def tattach_frame_def)
  have 2: "length ?l = 7" by simp
  have sz: "frame_size ?l = 20" by (simp add: frame_size_def)
  have 3: "ReadFrom [Chunk ?body] (frame_size ?l - 7) = ((?body, None), [])"
    by (simp add: ReadFrom.simps sz)
  have av: "nat (frame_size ?l - 7) \<le> length (stream_data [Chunk ?body])"
    by (simp add: sz)
  have g7: "7 \<le> frame_size ?l" by (simp add: sz)
  have w0: "wire ?c = []" by (simp add: new_conn_def)
  note T = header_decoded_little_endian [OF 1 2 3, of stub_handlers]
  have b: "unat (tag_of 1 0) = 1" using T [THEN conjunct2, THEN conjunct1] by simp
  from T g7 av have "\<exists>reply werr. wire (serve_step stub_handlers ?c) =
      wire ?c @ [Rx (tag_of (?l ! 5) (?l ! 6)) (?l ! 4) (?l ! 5 # ?l ! 6 # ?body), Tx reply werr]"
    by blast
  then have c: "\<exists>reply werr. wire (serve_step stub_handlers ?c) =
      [Rx 1 Tattach [1,0, 0,0,0,0, 255,255,255,255, 1,0,117, 0,0], Tx reply werr]"
    by (simp add: w0 tag_of_def Tattach_def)
  let ?c' = "new_conn [Chunk [3,0,0,0, 100, 255,255]] []"
  let ?l' = "[3,0,0,0, 100, 255,255] :: byte list"
  have r1: "Read (Reader ?c') 7 = ((?l', None), [])" by (simp add: new_conn_def)
  have r2: "length ?l' = 7" by simp
  have sz': "frame_size ?l' = 3" by (simp add: frame_size_def)
  have r3: "ReadFrom [] (frame_size ?l' - 7) = (([], None), [])"
    by (simp add: ReadFrom.simps sz')
  have s7: "frame_size ?l' \<le> 7" by (simp add: sz')
  have w0': "wire ?c' = []" by (simp add: new_conn_def)
  note T' = header_decoded_little_endian [OF r1 r2 r3, of stub_handlers]
  from T' s7 have "\<exists>reply werr. wire (serve_step stub_handlers ?c') =
      wire ?c' @ [Rx (tag_of (?l' ! 5) (?l' ! 6)) (?l' ! 4) [?l' ! 5, ?l' ! 6], Tx reply werr]"
    by blast
  then have d: "\<exists>reply werr. wire (serve_step stub_handlers ?c') =
      [Rx 65535 Tversion [255,255], Tx reply werr]"
    by (simp add: w0' tag_of_def Tversion_def)
  show ?thesis by (intro conjI sz b av c s7 d)
qed

text \<open>
  Claim C9. The flag \<^verbatim>\<open>Versioned\<close> is monotone. \<^verbatim>\<open>Dispatch\<close> itself only ever
  assigns \<^verbatim>\<open>true\<close> to it; the handlers are not part of the sources at hand, so the
  statement is for handlers that do not clear the flag. Then, from a server whose flag is
  set, every sequence of calls of \<^verbatim>\<open>Dispatch\<close>, of any types and also with further
  Tversion messages, ends in a server whose flag is set. The sequence is arbitrary, so the
  flag is set after each of its prefixes as well.
\<close>

theorem Versioned_monotone:
  "handlers_keep_Versioned h \<Longrightarrow> Versioned s \<Longrightarrow> Dispatch_all h s ms = Some s' \<Longrightarrow> Versioned s'"
proof (induction ms arbitrary: s)
  case Nil
  then show ?case by simp
next
  case (Cons m ms)
  obtain b t where m: "m = (b, t)" by (cases m)
  from Cons.prems(3) m obtain s1 b1 e1 where
    d: "Dispatch h s b t = Some (s1, b1, e1)" and rest: "Dispatch_all h s1 ms = Some s'"
    by (auto split: option.splits)
  have "Versioned s1"
    using Dispatch_keeps_Versioned [OF Cons.prems(1,2) d] .
  then show ?case
    using Cons.IH [OF Cons.prems(1) _ rest] by simp
qed

theorem Versioned_monotone_witness:
  "handlers_keep_Versioned stub_handlers
   \<and> Versioned \<lparr>NS = (), Versioned = True\<rparr>
   \<and> Dispatch_all stub_handlers \<lparr>NS = (), Versioned = True\<rparr>
        [([1, 0], Tattach), ([255, 255], Tversion), ([2, 0], Tauth), ([3, 0], Tread)]
       = Some \<lparr>NS = (), Versioned = True\<rparr>"
proof -
  have 1: "handlers_keep_Versioned stub_handlers"
    by (simp add: handlers_keep_Versioned_def stub_handlers_def keeps_reply_with)
  have 2: "Versioned \<lparr>NS = (), Versioned = True\<rparr>" by simp
  have 3: "Dispatch_all stub_handlers \<lparr>NS = (), Versioned = True\<rparr>
        [([1, 0], Tattach), ([255, 255], Tversion), ([2, 0], Tauth), ([3, 0], Tread)]
       = Some \<lparr>NS = (), Versioned = True\<rparr>"
    by (simp add: Dispatch_def stub_handlers_def reply_with_def mtype_defs)
  show ?thesis
    using Versioned_monotone [OF 1 2 3] 1 3 by simp
qed

text \<open>
  Claim C10. The header is read by one call \<^verbatim>\<open>c.Read(l)\<close> on a buffer of seven
  bytes. When that call returns fewer than seven bytes and no error, \<^verbatim>\<open>serve\<close> marks
  the connection dead and returns (closing the stream): nothing is dispatched or written,
  the bytes read are dropped, and the rest of the stream, which may hold the rest of the
  header, is never read.
\<close>

theorem short_header_read_kills:
  assumes "Read (Reader c) 7 = ((bs, None), r)" and "length bs < 7"
    and "\<not> dead c" and "\<not> panicked c"
  shows "serve h c =
     c\<lparr>requestCounter := requestCounter c + 1, Reader := r, dead := True, closed := True\<rparr>"
proof -
  have "serve_step h c = c\<lparr>requestCounter := requestCounter c + 1, Reader := r, dead := True\<rparr>"
    using assms(1,2) by (simp add: serve_step_header_fails)
  then show ?thesis
    using assms(3,4) by (simp add: serve_def serve_loop_step serve_loop_stop)
qed

text \<open>
  A Tversion frame whose first four bytes arrive alone: the first read returns four
  bytes and no error, and the connection is closed with the other fifteen bytes unread.
\<close>

theorem short_header_read_kills_witness:
  "Read [Chunk (take 4 tversion_frame), Chunk (drop 4 tversion_frame)] 7
      = (([19,0,0,0], None), [Chunk (drop 4 tversion_frame)])
   \<and> serve stub_handlers
        (new_conn [Chunk (take 4 tversion_frame), Chunk (drop 4 tversion_frame)] []) =
     \<lparr>server = \<lparr>NS = (), Versioned = False\<rparr>, Reader = [Chunk (drop 4 tversion_frame)],
      Writer = [], dead = True, closed = True, requestCounter = 1, panicked = False, wire = []\<rparr>"
proof -
  let ?c = "new_conn [Chunk (take 4 tversion_frame), Chunk (drop 4 tversion_frame)] []"
  have 1: "Read (Reader ?c) 7 = (([19,0,0,0], None), [Chunk (drop 4 tversion_frame)])"
    by (simp add: new_conn_def tversion_frame_def)
  have 2: "length [19,0,0,0::byte] < 7" by simp
  have 3: "\<not> dead ?c" "\<not> panicked ?c" by (simp_all add: new_conn_def)
  show ?thesis
    using short_header_read_kills [OF 1 2 3, of stub_handlers] 1
    by (simp add: new_conn_def)
qed

end
